theory Spec2Isabelle
  imports Main "HOL-Library.AList"
begin

section \<open>YAML values and Python dictionaries\<close>

text \<open>
  The values \<^verbatim>\<open>yaml.safe_load\<close> produces. A scalar is what Python can hash and use as a
  dictionary key or a graph node: \<^verbatim>\<open>None\<close>, an integer or a string. Python's booleans
  are integers (\<^verbatim>\<open>True == 1\<close>, same hash), and no test of this program tells them apart,
  so they are \<open>SInt 1\<close> and \<open>SInt 0\<close>. Floats and timestamps are left out.

  A \<^verbatim>\<open>dict\<close> keeps insertion order, so it is an association list; Python's keys are
  unique, which is \<open>distinct (map fst d)\<close> where a property needs it.
\<close>

datatype scalar = SNone | SInt int | SStr string

datatype yaml = YScalar scalar | YList "yaml list" | YDict "(scalar \<times> yaml) list"

type_synonym dict = "(scalar \<times> yaml) list"

abbreviation YStr :: "string \<Rightarrow> yaml" where
  "YStr s \<equiv> YScalar (SStr s)"

datatype error = FileNotFoundError | YAMLError | AttributeError | TypeError | ValueError

text \<open>
  \<^verbatim>\<open>d.update(items)\<close>: each pair in turn replaces the value of a key that is present (the
  key keeps its place) or is appended. \<^verbatim>\<open>del d[k]\<close> is \<^const>\<open>AList.delete\<close>.
\<close>

definition dict_update :: "('k \<times> 'v) list \<Rightarrow> ('k \<times> 'v) list \<Rightarrow> ('k \<times> 'v) list" where
  "dict_update d items = fold (\<lambda>(k, v). AList.update k v) items d"

text \<open>
  \<^verbatim>\<open>{k: v for k, v in included_data.items() if k != 'include'}\<close>
\<close>

definition without_include :: "dict \<Rightarrow> dict" where
  "without_include d = filter (\<lambda>(k, v). k \<noteq> SStr ''include'') d"

section \<open>Paths and files\<close>

text \<open>
  \<^verbatim>\<open>os.path.join(a, b)\<close> and \<^verbatim>\<open>os.path.dirname(p)\<close> of \<^verbatim>\<open>posixpath\<close>, on two strings.
\<close>

definition path_join :: "string \<Rightarrow> string \<Rightarrow> string" where
  "path_join a b =
     (if b \<noteq> [] \<and> hd b = CHR ''/'' then b
      else if a = [] \<or> last a = CHR ''/'' then a @ b
      else a @ ''/'' @ b)"

definition rstrip_sep :: "string \<Rightarrow> string" where
  "rstrip_sep s = rev (dropWhile (\<lambda>c. c = CHR ''/'') (rev s))"

definition dirname :: "string \<Rightarrow> string" where
  "dirname p =
     (let head = rev (dropWhile (\<lambda>c. c \<noteq> CHR ''/'') (rev p))
      in if head \<noteq> [] \<and> \<not> list_all (\<lambda>c. c = CHR ''/'') head then rstrip_sep head else head)"

text \<open>
  What \<^verbatim>\<open>open(path)\<close> followed by \<^verbatim>\<open>yaml.safe_load(file)\<close> gives for each path: the
  file is missing, it is not valid YAML, or it holds a value. The file system is a
  parameter of the resolver.
\<close>

datatype load = NoFile | BadYaml | Doc yaml

type_synonym fs = "string \<Rightarrow> load"

section \<open>parse_includes\<close>

text \<open>
  \<^verbatim>\<open>if not isinstance(includes, list): includes = [includes]\<close>
\<close>

fun as_list :: "yaml \<Rightarrow> yaml list" where
  "as_list (YList xs) = xs"
| "as_list v = [v]"

text \<open>
  \<^verbatim>\<open>isinstance(include, dict) and 'local' in include\<close>, then \<^verbatim>\<open>include['local']\<close>.
\<close>

fun local_of :: "yaml \<Rightarrow> yaml option" where
  "local_of (YDict e) = map_of e (SStr ''local'')"
| "local_of v = None"

text \<open>
  \<open>parse_includes\<close> calls itself on the content of each included file, and no check
  stops a file that includes itself. The first argument bounds the nesting of includes
  that is followed: \<open>include_loop\<close> (the \<^verbatim>\<open>for include in includes\<close> loop) spends one
  unit to enter an included file and gives \<open>None\<close> when none is left. \<open>Some (Inl e)\<close>
  is the exception \<open>e\<close>, \<open>Some (Inr v)\<close> the returned value.

  A \<^verbatim>\<open>local\<close> that is not a string makes \<^verbatim>\<open>os.path.join\<close> raise \<^verbatim>\<open>TypeError\<close>; an
  included document that is not a mapping has no \<^verbatim>\<open>items\<close>, so the merge raises
  \<^verbatim>\<open>AttributeError\<close>.
\<close>

fun parse_includes :: "nat \<Rightarrow> fs \<Rightarrow> yaml \<Rightarrow> string \<Rightarrow> (error + yaml) option"
  and include_loop :: "nat \<Rightarrow> fs \<Rightarrow> string \<Rightarrow> yaml list \<Rightarrow> dict \<Rightarrow> (error + dict) option"
where
  "parse_includes n fs (YDict d) base_dir =
     (case map_of d (SStr ''include'') of
        None \<Rightarrow> Some (Inr (YDict d))
      | Some includes \<Rightarrow>
          (case include_loop n fs base_dir (as_list includes) d of
             None \<Rightarrow> None
           | Some (Inl e) \<Rightarrow> Some (Inl e)
           | Some (Inr d') \<Rightarrow> Some (Inr (YDict (AList.delete (SStr ''include'') d')))))"
| "parse_includes n fs (YScalar s) base_dir = Some (Inr (YScalar s))"
| "parse_includes n fs (YList xs) base_dir = Some (Inr (YList xs))"
| "include_loop n fs base_dir [] d = Some (Inr d)"
| "include_loop n fs base_dir (inc # rest) d =
     (case local_of inc of
        None \<Rightarrow> include_loop n fs base_dir rest d
      | Some (YScalar (SStr p)) \<Rightarrow>
          (case n of
             0 \<Rightarrow> None
           | Suc m \<Rightarrow>
               (case fs (path_join base_dir p) of
                  NoFile \<Rightarrow> Some (Inl FileNotFoundError)
                | BadYaml \<Rightarrow> Some (Inl YAMLError)
                | Doc included_data \<Rightarrow>
                    (case parse_includes m fs included_data (dirname (path_join base_dir p)) of
                       None \<Rightarrow> None
                     | Some (Inl e) \<Rightarrow> Some (Inl e)
                     | Some (Inr (YDict r)) \<Rightarrow>
                         include_loop n fs base_dir rest (dict_update d (without_include r))
                     | Some (Inr _) \<Rightarrow> Some (Inl AttributeError))))
      | Some _ \<Rightarrow> Some (Inl TypeError))"

section \<open>The graph (networkx.DiGraph)\<close>

text \<open>
  The part of \<^verbatim>\<open>networkx.DiGraph\<close> that \<^verbatim>\<open>build_graph\<close> uses. A graph is its node
  dictionary (node to attribute dictionary) and its edges (pair of nodes to attribute
  dictionary), listed here in insertion order; no property below depends on the order. \<^verbatim>\<open>add_node\<close> and \<^verbatim>\<open>add_edge\<close> update
  the attributes of a node or edge that is present, \<^verbatim>\<open>add_edge\<close> creates a missing
  end point with no attributes, and both refuse \<^verbatim>\<open>None\<close> as a node with
  \<^verbatim>\<open>ValueError\<close>.
\<close>

type_synonym attrs = "(string \<times> scalar) list"

record digraph =
  nodes :: "(scalar \<times> attrs) list"
  edges :: "((scalar \<times> scalar) \<times> attrs) list"

definition empty_graph :: digraph where
  "empty_graph = \<lparr>nodes = [], edges = []\<rparr>"

definition has_node :: "digraph \<Rightarrow> scalar \<Rightarrow> bool" where
  "has_node g n = (map_of (nodes g) n \<noteq> None)"

definition add_node :: "scalar \<Rightarrow> attrs \<Rightarrow> digraph \<Rightarrow> error + digraph" where
  "add_node n attr g =
     (case map_of (nodes g) n of
        None \<Rightarrow> (if n = SNone then Inl ValueError else Inr (g\<lparr>nodes := nodes g @ [(n, attr)]\<rparr>))
      | Some old \<Rightarrow> Inr (g\<lparr>nodes := AList.update n (dict_update old attr) (nodes g)\<rparr>))"

definition ensure_node :: "scalar \<Rightarrow> digraph \<Rightarrow> error + digraph" where
  "ensure_node n g =
     (if has_node g n then Inr g
      else if n = SNone then Inl ValueError
      else Inr (g\<lparr>nodes := nodes g @ [(n, [])]\<rparr>))"

definition add_edge :: "scalar \<Rightarrow> scalar \<Rightarrow> attrs \<Rightarrow> digraph \<Rightarrow> error + digraph" where
  "add_edge u v attr g =
     (case ensure_node u g of
        Inl e \<Rightarrow> Inl e
      | Inr g1 \<Rightarrow>
          (case ensure_node v g1 of
             Inl e \<Rightarrow> Inl e
           | Inr g2 \<Rightarrow>
               Inr (g2\<lparr>edges :=
                     AList.update (u, v)
                       (dict_update (case map_of (edges g2) (u, v) of None \<Rightarrow> [] | Some old \<Rightarrow> old) attr)
                       (edges g2)\<rparr>)))"

section \<open>build_graph\<close>

definition startswith_dot :: "string \<Rightarrow> bool" where
  "startswith_dot s = (s \<noteq> [] \<and> hd s = CHR ''.'')"

definition hidden_attrs :: "scalar \<Rightarrow> attrs" where
  "hidden_attrs name =
     [(''type'', SStr ''hidden''), (''label'', name), (''color'', SStr ''#E3F2FD''),
      (''shape'', SStr ''s''), (''edge_color'', SStr ''#1976D2'')]"

definition job_attrs :: "scalar \<Rightarrow> attrs" where
  "job_attrs name =
     [(''type'', SStr ''job''), (''label'', name), (''color'', SStr ''#E8F5E9''),
      (''shape'', SStr ''o''), (''edge_color'', SStr ''#388E3C'')]"

text \<open>
  First pass, \<^verbatim>\<open>for job_name in data.keys()\<close>. A key that is not a string has no
  \<^verbatim>\<open>startswith\<close>: \<^verbatim>\<open>AttributeError\<close>.
\<close>

fun add_job_nodes :: "scalar list \<Rightarrow> digraph \<Rightarrow> error + digraph" where
  "add_job_nodes [] g = Inr g"
| "add_job_nodes (job_name # rest) g =
     (case job_name of
        SStr s \<Rightarrow>
          (case add_node job_name
                  (if startswith_dot s then hidden_attrs job_name else job_attrs job_name) g of
             Inl e \<Rightarrow> Inl e
           | Inr g' \<Rightarrow> add_job_nodes rest g')
      | _ \<Rightarrow> Inl AttributeError)"

text \<open>
  The parents the second pass loops over for one \<^verbatim>\<open>job_config\<close>: none unless it is a
  mapping with an \<^verbatim>\<open>extends\<close> key; a string is wrapped into a list, a list is taken as
  it is, and any other value is passed over (neither \<^verbatim>\<open>isinstance\<close> test holds).
\<close>

fun extends_of :: "yaml \<Rightarrow> yaml list" where
  "extends_of (YDict job_config) =
     (case map_of job_config (SStr ''extends'') of
        None \<Rightarrow> []
      | Some (YScalar (SStr s)) \<Rightarrow> [YStr s]
      | Some (YList ps) \<Rightarrow> ps
      | Some _ \<Rightarrow> [])"
| "extends_of v = []"

text \<open>
  \<^verbatim>\<open>for parent in extends\<close>. A parent that is a list or a mapping cannot be hashed:
  \<^verbatim>\<open>parent not in graph\<close> holds and \<^verbatim>\<open>add_node\<close> raises \<^verbatim>\<open>TypeError\<close>.
\<close>

fun add_parents :: "scalar \<Rightarrow> yaml list \<Rightarrow> digraph \<Rightarrow> error + digraph" where
  "add_parents job_name [] g = Inr g"
| "add_parents job_name (parent # rest) g =
     (case parent of
        YScalar p \<Rightarrow>
          (case (if \<not> has_node g p then add_node p (hidden_attrs p) g else Inr g) of
             Inl e \<Rightarrow> Inl e
           | Inr g1 \<Rightarrow>
               (case add_edge p job_name [(''label'', SStr ''extends'')] g1 of
                  Inl e \<Rightarrow> Inl e
                | Inr g2 \<Rightarrow> add_parents job_name rest g2))
      | _ \<Rightarrow> Inl TypeError)"

text \<open>Second pass, \<^verbatim>\<open>for job_name, job_config in data.items()\<close>.\<close>

fun add_extends_edges :: "dict \<Rightarrow> digraph \<Rightarrow> error + digraph" where
  "add_extends_edges [] g = Inr g"
| "add_extends_edges ((job_name, job_config) # rest) g =
     (case add_parents job_name (extends_of job_config) g of
        Inl e \<Rightarrow> Inl e
      | Inr g' \<Rightarrow> add_extends_edges rest g')"

text \<open>A value that is not a mapping has no \<^verbatim>\<open>keys\<close>: \<^verbatim>\<open>AttributeError\<close>.\<close>

fun build_graph :: "yaml \<Rightarrow> error + digraph" where
  "build_graph (YDict d) =
     (case add_job_nodes (map fst d) empty_graph of
        Inl e \<Rightarrow> Inl e
      | Inr g \<Rightarrow> add_extends_edges d g)"
| "build_graph v = Inl AttributeError"

section \<open>build_graph on its state\<close>

text \<open>
  The same function with what it can reach written as a state: the document bound to
  \<^verbatim>\<open>data\<close> and the graph bound to \<^verbatim>\<open>graph\<close>. The source reads \<^verbatim>\<open>data\<close> through
  \<^verbatim>\<open>keys()\<close>, \<^verbatim>\<open>items()\<close>, \<^verbatim>\<open>in\<close> and indexing; its only calls that change an object are
  \<^verbatim>\<open>graph.add_node\<close> and \<^verbatim>\<open>graph.add_edge\<close>, and \<^verbatim>\<open>extends = [extends]\<close> binds the
  local name to a new list. A run gives the state it ends in and the exception, if one
  was raised; the second pass reads the document from the state the first pass left.
\<close>

record build_state =
  st_data :: yaml
  st_graph :: digraph

text \<open>The two loops and the function, statement by statement, on the state.\<close>

fun add_job_nodes_run :: "scalar list \<Rightarrow> build_state \<Rightarrow> build_state \<times> error option" where
  "add_job_nodes_run [] st = (st, None)"
| "add_job_nodes_run (job_name # rest) st =
     (case job_name of
        SStr s \<Rightarrow>
          (case add_node job_name
                  (if startswith_dot s then hidden_attrs job_name else job_attrs job_name)
                  (st_graph st) of
             Inl e \<Rightarrow> (st, Some e)
           | Inr g' \<Rightarrow> add_job_nodes_run rest (st\<lparr>st_graph := g'\<rparr>))
      | _ \<Rightarrow> (st, Some AttributeError))"

fun add_parents_run :: "scalar \<Rightarrow> yaml list \<Rightarrow> build_state \<Rightarrow> build_state \<times> error option" where
  "add_parents_run job_name [] st = (st, None)"
| "add_parents_run job_name (parent # rest) st =
     (case parent of
        YScalar p \<Rightarrow>
          (case (if \<not> has_node (st_graph st) p then add_node p (hidden_attrs p) (st_graph st)
                 else Inr (st_graph st)) of
             Inl e \<Rightarrow> (st, Some e)
           | Inr g1 \<Rightarrow>
               (case add_edge p job_name [(''label'', SStr ''extends'')] g1 of
                  Inl e \<Rightarrow> (st\<lparr>st_graph := g1\<rparr>, Some e)
                | Inr g2 \<Rightarrow> add_parents_run job_name rest (st\<lparr>st_graph := g2\<rparr>)))
      | _ \<Rightarrow> (st, Some TypeError))"

fun add_extends_edges_run :: "dict \<Rightarrow> build_state \<Rightarrow> build_state \<times> error option" where
  "add_extends_edges_run [] st = (st, None)"
| "add_extends_edges_run ((job_name, job_config) # rest) st =
     (case add_parents_run job_name (extends_of job_config) st of
        (st', Some e) \<Rightarrow> (st', Some e)
      | (st', None) \<Rightarrow> add_extends_edges_run rest st')"

definition build_graph_run :: "yaml \<Rightarrow> build_state \<times> error option" where
  "build_graph_run data0 =
     (let st = \<lparr>st_data = data0, st_graph = empty_graph\<rparr> in
      case st_data st of
        YDict d \<Rightarrow>
          (case add_job_nodes_run (map fst d) st of
             (st1, Some e) \<Rightarrow> (st1, Some e)
           | (st1, None) \<Rightarrow>
               (case st_data st1 of
                  YDict d1 \<Rightarrow> add_extends_edges_run d1 st1
                | _ \<Rightarrow> (st1, Some AttributeError)))
      | _ \<Rightarrow> (st, Some AttributeError))"

text \<open>What the caller gets: the graph, or the exception.\<close>

fun outcome :: "build_state \<times> error option \<Rightarrow> error + digraph" where
  "outcome (st, None) = Inr (st_graph st)"
| "outcome (st, Some e) = Inl e"

section \<open>Notions used to state the properties\<close>

text \<open>
  Python's dictionaries have unique keys. \<open>unique_keys\<close> says so of the top level of a
  document, \<open>unique_keys_fs\<close> of every file.
\<close>

fun unique_keys :: "yaml \<Rightarrow> bool" where
  "unique_keys (YDict d) = distinct (map fst d)"
| "unique_keys v = True"

definition unique_keys_fs :: "fs \<Rightarrow> bool" where
  "unique_keys_fs fs = (\<forall>p v. fs p = Doc v \<longrightarrow> unique_keys v)"

text \<open>
  The resolved document an entry of the \<^verbatim>\<open>include\<close> sequence contributes: the included
  file, with its own includes resolved from its own directory. \<open>None\<close> when the entry
  is passed over or does not resolve to a mapping.
\<close>

definition resolved_include :: "nat \<Rightarrow> fs \<Rightarrow> string \<Rightarrow> yaml \<Rightarrow> dict option" where
  "resolved_include n fs base_dir inc =
     (case (local_of inc, n) of
        (Some (YScalar (SStr p)), Suc m) \<Rightarrow>
          (case fs (path_join base_dir p) of
             Doc included_data \<Rightarrow>
               (case parse_includes m fs included_data (dirname (path_join base_dir p)) of
                  Some (Inr (YDict r)) \<Rightarrow> Some r
                | _ \<Rightarrow> None)
           | _ \<Rightarrow> None)
      | _ \<Rightarrow> None)"

text \<open>
  The merge as the specification words it: the entries in sequence order, each resolved
  document laid over what is there (\<open>m ++ m'\<close>: the keys of \<open>m'\<close> win), its
  \<^verbatim>\<open>include\<close> key left out.
\<close>

fun merged_includes :: "nat \<Rightarrow> fs \<Rightarrow> string \<Rightarrow> yaml list \<Rightarrow> (scalar \<rightharpoonup> yaml) \<Rightarrow> (scalar \<rightharpoonup> yaml)" where
  "merged_includes n fs base_dir [] m = m"
| "merged_includes n fs base_dir (inc # rest) m =
     merged_includes n fs base_dir rest
       (case resolved_include n fs base_dir inc of
          None \<Rightarrow> m
        | Some r \<Rightarrow> m ++ (map_of r)(SStr ''include'' := None))"

text \<open>
  The includes of a file system form finite chains: a rank on the paths goes down from
  every file to each file it includes, the included path being the one the code
  computes, from the directory of the including file.
\<close>

definition acyclic_includes :: "fs \<Rightarrow> (string \<Rightarrow> nat) \<Rightarrow> bool" where
  "acyclic_includes fs rank \<longleftrightarrow>
     (\<forall>path d incs e p.
        fs path = Doc (YDict d) \<and> map_of d (SStr ''include'') = Some incs
        \<and> e \<in> set (as_list incs) \<and> local_of e = Some (YStr p)
        \<longrightarrow> rank (path_join (dirname path) p) < rank path)"

text \<open>A key occurs in a document at some nesting level.\<close>

fun has_key_anywhere :: "scalar \<Rightarrow> yaml \<Rightarrow> bool" where
  "has_key_anywhere k (YScalar s) = False"
| "has_key_anywhere k (YList xs) = (\<exists>x \<in> set xs. has_key_anywhere k x)"
| "has_key_anywhere k (YDict d) = (k \<in> fst ` set d \<or> (\<exists>v \<in> snd ` set d. has_key_anywhere k v))"



text \<open>
  The classification of a name by its first character, the tag a node is expected to
  carry given the set \<open>K\<close> of top-level keys, and the invariants of the two passes of
  \<open>build_graph\<close>: after the first pass every node is a string key tagged by its
  name and there is no edge; during the second, node and edge dictionaries have unique
  keys, every key is a node, every node carries the expected tag and every edge the
  label \<^verbatim>\<open>extends\<close>.
\<close>

definition classify :: "string \<Rightarrow> scalar" where
  "classify s = SStr (if startswith_dot s then ''hidden'' else ''job'')"

fun expected_tag :: "scalar set \<Rightarrow> scalar \<Rightarrow> scalar" where
  "expected_tag K (SStr s) = (if SStr s \<in> K then classify s else SStr ''hidden'')"
| "expected_tag K n = SStr ''hidden''"

definition extends_label :: attrs where
  "extends_label = [(''label'', SStr ''extends'')]"

definition graph_inv :: "scalar set \<Rightarrow> digraph \<Rightarrow> bool" where
  "graph_inv K g \<longleftrightarrow>
     distinct (map fst (nodes g)) \<and> distinct (map fst (edges g))
     \<and> K \<subseteq> fst ` set (nodes g)
     \<and> (\<forall>n a. map_of (nodes g) n = Some a \<longrightarrow> map_of a ''type'' = Some (expected_tag K n))
     \<and> (\<forall>e a. map_of (edges g) e = Some a \<longrightarrow> a = extends_label)"

definition nodes_inv :: "digraph \<Rightarrow> bool" where
  "nodes_inv g \<longleftrightarrow>
     distinct (map fst (nodes g)) \<and> edges g = []
     \<and> (\<forall>n a. map_of (nodes g) n = Some a \<longrightarrow> (\<exists>s. n = SStr s \<and> map_of a ''type'' = Some (classify s)))"

text \<open>
  The documents on which \<open>build_graph\<close> raises nothing: every key is a string and
  every parent named by an \<^verbatim>\<open>extends\<close> value is a scalar other than \<^verbatim>\<open>None\<close>.
\<close>

definition well_formed_jobs :: "dict \<Rightarrow> bool" where
  "well_formed_jobs d \<longleftrightarrow>
     (\<forall>k \<in> fst ` set d. \<exists>s. k = SStr s)
     \<and> (\<forall>(j, cfg) \<in> set d. \<forall>x \<in> set (extends_of cfg). \<exists>p. x = YScalar p \<and> p \<noteq> SNone)"

section \<open>Example files\<close>

definition no_files :: fs where
  "no_files p = NoFile"

definition example_fs :: fs where
  "example_fs p =
     (if p = ''./t.yml'' then
        Doc (YDict [(SStr ''build'', YDict [(SStr ''extends'', YStr ''.setup'')])])
      else if p = ''/a/sub/b.yml'' then
        Doc (YDict [(SStr ''include'', YDict [(SStr ''local'', YStr ''c.yml'')]),
                    (SStr ''b-job'', YDict [(SStr ''script'', YStr ''b'')])])
      else if p = ''/a/sub/c.yml'' then
        Doc (YDict [(SStr ''c-job'', YDict [(SStr ''script'', YStr ''sub'')])])
      else if p = ''/a/c.yml'' then
        Doc (YDict [(SStr ''c-job'', YDict [(SStr ''script'', YStr ''root'')])])
      else if p = ''./empty.yml'' then Doc (YScalar SNone)
      else if p = ''./nested.yml'' then
        Doc (YDict [(SStr ''job'', YDict [(SStr ''include'', YStr ''x.yml'')])])
      else NoFile)"

section \<open>Dictionary lemmas\<close>

lemma dict_update_Nil [simp]: "dict_update d [] = d"
  by (simp add: dict_update_def)

lemma dict_update_Cons [simp]: "dict_update d ((k, v) # items) = dict_update (AList.update k v d) items"
  by (simp add: dict_update_def)

lemma keys_dict_update: "fst ` set (dict_update d items) = fst ` set d \<union> fst ` set items"
proof (induction items arbitrary: d)
  case Nil
  then show ?case by simp
next
  case (Cons kv items)
  obtain k v where kv: "kv = (k, v)" by (cases kv)
  show ?case unfolding kv dict_update_Cons Cons.IH dom_update by auto
qed

lemma distinct_dict_update: "distinct (map fst d) \<Longrightarrow> distinct (map fst (dict_update d items))"
  by (induction items arbitrary: d) (auto simp: distinct_update)

lemma map_of_dict_update:
  "distinct (map fst items) \<Longrightarrow> map_of (dict_update d items) = map_of d ++ map_of items"
proof (induction items arbitrary: d)
  case Nil
  then show ?case by simp
next
  case (Cons kv items)
  obtain k v where kv: "kv = (k, v)" by (cases kv)
  from Cons.prems kv have notin: "k \<notin> fst ` set items" and dist: "distinct (map fst items)"
    by auto
  have "map_of (dict_update d (kv # items)) = map_of (AList.update k v d) ++ map_of items"
    unfolding kv dict_update_Cons by (rule Cons.IH [OF dist])
  also have "\<dots> = map_of d ++ map_of (kv # items)"
  proof (rule ext)
    fix x
    show "(map_of (AList.update k v d) ++ map_of items) x = (map_of d ++ map_of (kv # items)) x"
    proof -
      have none: "map_of items k = None"
        using notin by (simp add: map_of_eq_None_iff)
      show ?thesis
        using none kv by (cases "x = k") (simp_all add: map_add_def update_conv' split: option.splits)
    qed
  qed
  finally show ?case .
qed

lemma keys_without_include: "fst ` set (without_include d) = fst ` set d - {SStr ''include''}"
  by (auto simp: without_include_def)

lemma distinct_without_include: "distinct (map fst d) \<Longrightarrow> distinct (map fst (without_include d))"
  by (simp add: without_include_def distinct_map_filter)

lemma map_of_without_include:
  "map_of (without_include d) = (map_of d)(SStr ''include'' := None)"
  unfolding without_include_def
  by (induction d) (auto simp: fun_eq_iff)

section \<open>Lemmas on parse_includes\<close>

lemma unique_keys_resolve:
  "unique_keys_fs fs \<Longrightarrow> unique_keys data \<Longrightarrow> parse_includes n fs data base_dir = Some (Inr r) \<Longrightarrow> unique_keys r"
  "unique_keys_fs fs \<Longrightarrow> distinct (map fst d) \<Longrightarrow> include_loop n fs base_dir incs d = Some (Inr d') \<Longrightarrow> distinct (map fst d')"
proof (induction n fs data base_dir and n fs base_dir incs d arbitrary: r and d' rule: parse_includes_include_loop.induct)
  case (1 n fs d base_dir)
  then show ?case
    by (auto split: option.splits sum.splits simp: distinct_delete)
next
  case (5 n fs base_dir inc rest d)
  show ?case
  proof (cases "local_of inc")
    case None
    with 5 show ?thesis by simp
  next
    case (Some l)
    note l = this
    show ?thesis
    proof (cases l)
      case (YScalar s)
      show ?thesis
      proof (cases s)
        case (SStr p)
        show ?thesis
        proof (cases n)
          case 0
          with 5 l YScalar SStr show ?thesis by simp
        next
          case (Suc m)
          show ?thesis
          proof (cases "fs (path_join base_dir p)")
            case (Doc v)
            have uv: "unique_keys v" using "5.prems"(1) Doc by (auto simp: unique_keys_fs_def)
            from "5.prems"(3) l YScalar SStr Suc Doc obtain rd where
              rd: "parse_includes m fs v (dirname (path_join base_dir p)) = Some (Inr (YDict rd))"
              and loop: "include_loop n fs base_dir rest (dict_update d (without_include rd)) = Some (Inr d')"
              by (auto split: option.splits sum.splits yaml.splits)
            have "distinct (map fst (dict_update d (without_include rd)))"
              using "5.prems"(2) by (rule distinct_dict_update)
            with "5.IH"(3) [OF l YScalar SStr Suc Doc rd _ _ "5.prems"(1) _ loop]
            show ?thesis by simp
          qed (use 5 l YScalar SStr Suc in \<open>auto\<close>)
        qed
      qed (use 5 l YScalar in \<open>auto\<close>)
    qed (use 5 l in \<open>auto\<close>)
  qed
qed auto

lemma include_loop_step:
  assumes "include_loop n fs base_dir (inc # rest) d = Some (Inr d')"
  shows "(resolved_include n fs base_dir inc = None \<and> include_loop n fs base_dir rest d = Some (Inr d'))
       \<or> (\<exists>r. resolved_include n fs base_dir inc = Some r
              \<and> include_loop n fs base_dir rest (dict_update d (without_include r)) = Some (Inr d'))"
  using assms
  by (auto simp: resolved_include_def
      split: option.splits yaml.splits scalar.splits nat.splits load.splits sum.splits)

lemma resolved_include_unique:
  assumes "unique_keys_fs fs" "resolved_include n fs base_dir inc = Some r"
  shows "distinct (map fst r)"
proof -
  from assms(2) obtain m p v where
    "fs (path_join base_dir p) = Doc v"
    "parse_includes m fs v (dirname (path_join base_dir p)) = Some (Inr (YDict r))"
    by (auto simp: resolved_include_def
        split: option.splits yaml.splits scalar.splits nat.splits load.splits sum.splits)
  with assms(1) unique_keys_resolve(1) [of fs v m "dirname (path_join base_dir p)" "YDict r"]
  show ?thesis by (auto simp: unique_keys_fs_def)
qed

lemma include_loop_merged:
  assumes "unique_keys_fs fs" "include_loop n fs base_dir incs d = Some (Inr d')"
  shows "map_of d' = merged_includes n fs base_dir incs (map_of d)"
  using assms(2)
proof (induction incs arbitrary: d)
  case Nil
  then show ?case by simp
next
  case (Cons inc rest)
  from include_loop_step [OF Cons.prems] show ?case
  proof (elim disjE conjE exE)
    assume "resolved_include n fs base_dir inc = None"
      "include_loop n fs base_dir rest d = Some (Inr d')"
    then show ?thesis using Cons.IH by simp
  next
    fix r
    assume r: "resolved_include n fs base_dir inc = Some r"
      and loop: "include_loop n fs base_dir rest (dict_update d (without_include r)) = Some (Inr d')"
    have "distinct (map fst (without_include r))"
      using resolved_include_unique [OF assms(1) r] by (rule distinct_without_include)
    then have "map_of (dict_update d (without_include r)) = map_of d ++ (map_of r)(SStr ''include'' := None)"
      by (simp add: map_of_dict_update map_of_without_include)
    with Cons.IH [OF loop] r show ?thesis by simp
  qed
qed

lemma merged_includes_append:
  "merged_includes n fs base_dir (xs @ ys) m = merged_includes n fs base_dir ys (merged_includes n fs base_dir xs m)"
  by (induction xs arbitrary: m) simp_all

lemma merged_includes_untouched:
  assumes "\<forall>e \<in> set incs. \<forall>re. resolved_include n fs base_dir e = Some re \<longrightarrow> map_of re k = None"
  shows "merged_includes n fs base_dir incs m k = m k"
  using assms
proof (induction incs arbitrary: m)
  case Nil
  then show ?case by simp
next
  case (Cons e rest)
  then have rest: "\<forall>e \<in> set rest. \<forall>re. resolved_include n fs base_dir e = Some re \<longrightarrow> map_of re k = None"
    by simp
  show ?case
  proof (cases "resolved_include n fs base_dir e")
    case None
    then show ?thesis using Cons.IH [OF rest] by simp
  next
    case (Some re)
    with Cons.prems have "map_of re k = None" by simp
    then show ?thesis using Cons.IH [OF rest] Some by (simp add: map_add_def)
  qed
qed

lemma merged_includes_last_wins:
  assumes "resolved_include n fs base_dir e = Some re" "map_of re k = Some v" "k \<noteq> SStr ''include''"
    and "\<forall>e' \<in> set post. \<forall>re'. resolved_include n fs base_dir e' = Some re' \<longrightarrow> map_of re' k = None"
  shows "merged_includes n fs base_dir (pre @ e # post) m k = Some v"
  using assms by (simp add: merged_includes_append merged_includes_untouched map_add_def)

lemma fuel_mono:
  "parse_includes n fs data base_dir = Some x \<Longrightarrow> n \<le> n' \<Longrightarrow> parse_includes n' fs data base_dir = Some x"
  "include_loop n fs base_dir incs d = Some y \<Longrightarrow> n \<le> n' \<Longrightarrow> include_loop n' fs base_dir incs d = Some y"
proof (induction n fs data base_dir and n fs base_dir incs d arbitrary: x n' and y n' rule: parse_includes_include_loop.induct)
  case (1 n fs d base_dir)
  show ?case
  proof (cases "map_of d (SStr ''include'')")
    case None
    with "1.prems" show ?thesis by simp
  next
    case (Some incv)
    with "1.prems"(1) obtain y where y: "include_loop n fs base_dir (as_list incv) d = Some y"
      by (auto split: option.splits)
    from "1.IH" [OF Some y "1.prems"(2)] "1.prems"(1) Some y show ?thesis by simp
  qed
next
  case (5 n fs base_dir inc rest d)
  show ?case
  proof (cases "local_of inc")
    case None
    with "5.prems"(1) have "include_loop n fs base_dir rest d = Some y" by simp
    from "5.IH"(1) [OF None this "5.prems"(2)] None show ?thesis by simp
  next
    case (Some l)
    note l = this
    show ?thesis
    proof (cases l)
      case (YScalar s)
      show ?thesis
      proof (cases s)
        case (SStr p)
        show ?thesis
        proof (cases n)
          case 0
          with "5.prems" l YScalar SStr show ?thesis by simp
        next
          case (Suc m)
          with "5.prems"(2) obtain m' where n': "n' = Suc m'" and mm: "m \<le> m'"
            by (cases n') auto
          show ?thesis
          proof (cases "fs (path_join base_dir p)")
            case (Doc v)
            from "5.prems"(1) l YScalar SStr Suc Doc obtain z where
              z: "parse_includes m fs v (dirname (path_join base_dir p)) = Some z"
              by (auto split: option.splits)
            have z': "parse_includes m' fs v (dirname (path_join base_dir p)) = Some z"
              using "5.IH"(2) [OF l YScalar SStr Suc Doc z mm] .
            show ?thesis
            proof (cases z)
              case (Inl e)
              with "5.prems"(1) l YScalar SStr Suc Doc z z' n' show ?thesis by simp
            next
              case (Inr rv)
              show ?thesis
              proof (cases rv)
                case (YDict rd)
                from "5.prems"(1) l YScalar SStr Suc Doc z Inr YDict
                have loop: "include_loop n fs base_dir rest (dict_update d (without_include rd)) = Some y"
                  by simp
                from "5.IH"(3) [OF l YScalar SStr Suc Doc _ _ _ loop "5.prems"(2)] z Inr YDict
                have "include_loop n' fs base_dir rest (dict_update d (without_include rd)) = Some y"
                  by simp
                with l YScalar SStr n' Doc z' Inr YDict show ?thesis by simp
              qed (use "5.prems"(1) l YScalar SStr Suc Doc z z' n' Inr in \<open>simp_all\<close>)
            qed
          qed (use "5.prems" l YScalar SStr Suc n' in \<open>simp_all\<close>)
        qed
      qed (use "5.prems" l YScalar in \<open>simp_all\<close>)
    qed (use "5.prems" l in \<open>simp_all\<close>)
  qed
qed auto


text \<open>
  A larger bound changes no result, and with includes that form finite chains the
  function returns (a document or an exception) for every bound above the rank of the
  files the document includes.
\<close>

lemma include_loop_returns:
  assumes "acyclic_includes fs rank"
  shows "(\<forall>e \<in> set incs. \<forall>p. local_of e = Some (YStr p) \<longrightarrow> rank (path_join base_dir p) < n)
     \<Longrightarrow> include_loop n fs base_dir incs d \<noteq> None"
proof (induction n arbitrary: incs d base_dir rule: less_induct)
  case (less n)
  note outer = less.IH
  from less.prems show ?case
  proof (induction incs arbitrary: d)
    case Nil
    show ?case by simp
  next
    case (Cons e rest)
    then have rest: "\<And>d. include_loop n fs base_dir rest d \<noteq> None" by simp
    show ?case
    proof (cases "local_of e")
      case None
      with rest show ?thesis by simp
    next
      case (Some l)
      show ?thesis
      proof (cases "\<exists>p. l = YStr p")
        case False
        with Some show ?thesis
          by (cases l) (auto split: scalar.splits)
      next
        case True
        then obtain p where l: "l = YStr p" ..
        with Some Cons.prems have rk: "rank (path_join base_dir p) < n" by simp
        then obtain m where n: "n = Suc m" by (cases n) auto
        let ?path = "path_join base_dir p"
        show ?thesis
        proof (cases "fs ?path")
          case (Doc v)
          have pv: "parse_includes m fs v (dirname ?path) \<noteq> None"
          proof (cases v)
            case (YDict vd)
            show ?thesis
            proof (cases "map_of vd (SStr ''include'')")
              case None
              with YDict show ?thesis by simp
            next
              case (Some incv)
              have "\<forall>e' \<in> set (as_list incv). \<forall>q. local_of e' = Some (YStr q)
                  \<longrightarrow> rank (path_join (dirname ?path) q) < m"
              proof (intro ballI allI impI)
                fix e' q
                assume "e' \<in> set (as_list incv)" "local_of e' = Some (YStr q)"
                with assms Doc YDict Some have "rank (path_join (dirname ?path) q) < rank ?path"
                  unfolding acyclic_includes_def by blast
                with rk n show "rank (path_join (dirname ?path) q) < m" by simp
              qed
              from outer [OF _ this, of vd] n
              have "include_loop m fs (dirname ?path) (as_list incv) vd \<noteq> None" by simp
              with YDict Some show ?thesis by (auto split: option.splits sum.splits)
            qed
          qed simp_all
          then obtain res where res: "parse_includes m fs v (dirname ?path) = Some res" by auto
          show ?thesis
          proof (cases res)
            case (Inl err)
            with Some l n Doc res show ?thesis by simp
          next
            case (Inr rv)
            with Some l n Doc res rest show ?thesis by (cases rv) simp_all
          qed
        qed (use Some l n in simp_all)
      qed
    qed
  qed
qed

lemma parse_includes_returns:
  assumes "acyclic_includes fs rank"
    and "\<forall>d incs e p. data = YDict d \<and> map_of d (SStr ''include'') = Some incs
          \<and> e \<in> set (as_list incs) \<and> local_of e = Some (YStr p)
          \<longrightarrow> rank (path_join base_dir p) < n"
  shows "\<exists>res. parse_includes n fs data base_dir = Some res"
proof (cases data)
  case (YDict d)
  show ?thesis
  proof (cases "map_of d (SStr ''include'')")
    case None
    with YDict show ?thesis by simp
  next
    case (Some incv)
    with assms(2) YDict
    have "\<forall>e \<in> set (as_list incv). \<forall>p. local_of e = Some (YStr p) \<longrightarrow> rank (path_join base_dir p) < n"
      by blast
    from include_loop_returns [OF assms(1) this, of d]
    obtain y where "include_loop n fs base_dir (as_list incv) d = Some y" by auto
    with YDict Some show ?thesis by (cases y) simp_all
  qed
qed simp_all

lemma example_fs_acyclic:
  "acyclic_includes example_fs (\<lambda>path. if path = ''/a/sub/b.yml'' then 1 else 0)"
  unfolding acyclic_includes_def example_fs_def
  by (auto simp: path_join_def dirname_def rstrip_sep_def split: if_splits)

lemma include_loop_keys:
  assumes "include_loop n fs base_dir incs d = Some (Inr d')"
  shows "fst ` set d \<subseteq> fst ` set d'
       \<and> (\<forall>e \<in> set incs. \<forall>re. resolved_include n fs base_dir e = Some re
             \<longrightarrow> fst ` set re - {SStr ''include''} \<subseteq> fst ` set d')"
  using assms
proof (induction incs arbitrary: d)
  case Nil
  then show ?case by simp
next
  case (Cons inc rest)
  from include_loop_step [OF Cons.prems] show ?case
  proof (elim disjE conjE exE)
    assume "resolved_include n fs base_dir inc = None"
      "include_loop n fs base_dir rest d = Some (Inr d')"
    then show ?thesis using Cons.IH [of d] by simp
  next
    fix r
    assume r: "resolved_include n fs base_dir inc = Some r"
      and loop: "include_loop n fs base_dir rest (dict_update d (without_include r)) = Some (Inr d')"
    from Cons.IH [OF loop]
    have sub: "fst ` set d \<union> (fst ` set r - {SStr ''include''}) \<subseteq> fst ` set d'"
      and rest: "\<forall>e \<in> set rest. \<forall>re. resolved_include n fs base_dir e = Some re
             \<longrightarrow> fst ` set re - {SStr ''include''} \<subseteq> fst ` set d'"
      by (simp_all add: keys_dict_update keys_without_include)
    from sub rest r show ?thesis by auto
  qed
qed

section \<open>Graph lemmas\<close>

lemma has_node_iff: "has_node g n \<longleftrightarrow> n \<in> fst ` set (nodes g)"
  by (simp add: has_node_def map_of_eq_None_iff)

lemma map_of_snoc:
  "map_of xs k = None \<Longrightarrow> map_of (xs @ [(k, v)]) = (map_of xs)(k \<mapsto> v)"
  by (rule ext) (simp add: map_add_def split: option.splits)

lemma type_hidden_attrs: "map_of (dict_update old (hidden_attrs n)) ''type'' = Some (SStr ''hidden'')"
  by (simp add: hidden_attrs_def update_conv')

lemma type_job_attrs: "map_of (dict_update old (job_attrs n)) ''type'' = Some (SStr ''job'')"
  by (simp add: job_attrs_def update_conv')

lemma add_node_fresh:
  "\<not> has_node g n \<Longrightarrow> n \<noteq> SNone \<Longrightarrow> add_node n attr g = Inr (g\<lparr>nodes := nodes g @ [(n, attr)]\<rparr>)"
  by (simp add: add_node_def has_node_def)

lemma add_node_fresh_None:
  "\<not> has_node g SNone \<Longrightarrow> add_node SNone attr g = Inl ValueError"
  by (simp add: add_node_def has_node_def)

lemma add_edge_present:
  "has_node g u \<Longrightarrow> has_node g v \<Longrightarrow>
   add_edge u v attr g =
     Inr (g\<lparr>edges := AList.update (u, v)
            (dict_update (case map_of (edges g) (u, v) of None \<Rightarrow> [] | Some old \<Rightarrow> old) attr) (edges g)\<rparr>)"
  by (simp add: add_edge_def ensure_node_def)

lemma extends_label_update:
  "old = [] \<or> old = extends_label \<Longrightarrow> dict_update old extends_label = extends_label"
  by (auto simp: extends_label_def)

lemma parent_step:
  assumes "has_node g job_name"
    and "(if \<not> has_node g p then add_node p (hidden_attrs p) g else Inr g) = Inr g1"
    and "add_edge p job_name extends_label g1 = Inr g2"
  shows "nodes g2 = (if has_node g p then nodes g else nodes g @ [(p, hidden_attrs p)])"
    and "edges g2 = AList.update (p, job_name)
            (dict_update (case map_of (edges g) (p, job_name) of None \<Rightarrow> [] | Some old \<Rightarrow> old) extends_label)
            (edges g)"
proof -
  have g1: "g1 = (if has_node g p then g else g\<lparr>nodes := nodes g @ [(p, hidden_attrs p)]\<rparr>)"
    using assms(2) by (cases "p = SNone") (auto simp: add_node_fresh add_node_fresh_None split: if_splits)
  have hp: "has_node g1 p" and hj: "has_node g1 job_name"
    using assms(1) g1 by (auto simp: has_node_iff)
  have e1: "edges g1 = edges g" using g1 by simp
  from add_edge_present [OF hp hj, of extends_label] assms(3)
  have "g2 = g1\<lparr>edges := AList.update (p, job_name)
            (dict_update (case map_of (edges g1) (p, job_name) of None \<Rightarrow> [] | Some old \<Rightarrow> old) extends_label) (edges g1)\<rparr>"
    by simp
  then show "nodes g2 = (if has_node g p then nodes g else nodes g @ [(p, hidden_attrs p)])"
    and "edges g2 = AList.update (p, job_name)
            (dict_update (case map_of (edges g) (p, job_name) of None \<Rightarrow> [] | Some old \<Rightarrow> old) extends_label)
            (edges g)"
    using g1 by auto
qed

lemma parent_step_inv:
  assumes "graph_inv K g" "job_name \<in> K"
    and "(if \<not> has_node g p then add_node p (hidden_attrs p) g else Inr g) = Inr g1"
    and "add_edge p job_name extends_label g1 = Inr g2"
  shows "graph_inv K g2"
    and "fst ` set (nodes g2) = insert p (fst ` set (nodes g))"
    and "fst ` set (edges g2) = insert (p, job_name) (fst ` set (edges g))"
proof -
  have hj: "has_node g job_name"
    using assms(1,2) by (auto simp: graph_inv_def has_node_iff)
  note st = parent_step [OF hj assms(3,4)]
  have einv: "\<And>e a. map_of (edges g) e = Some a \<Longrightarrow> a = extends_label"
    and ninv: "\<And>n a. map_of (nodes g) n = Some a \<Longrightarrow> map_of a ''type'' = Some (expected_tag K n)"
    using assms(1) unfolding graph_inv_def by blast+
  show n2: "fst ` set (nodes g2) = insert p (fst ` set (nodes g))"
    unfolding st(1) by (auto simp: has_node_iff)
  show e2: "fst ` set (edges g2) = insert (p, job_name) (fst ` set (edges g))"
    unfolding st(2) by (simp add: dom_update)
  have old: "(case map_of (edges g) (p, job_name) of None \<Rightarrow> [] | Some old \<Rightarrow> old) = []
     \<or> (case map_of (edges g) (p, job_name) of None \<Rightarrow> [] | Some old \<Rightarrow> old) = extends_label"
    using einv by (auto split: option.splits)
  have ed: "edges g2 = AList.update (p, job_name) extends_label (edges g)"
    unfolding st(2) extends_label_update [OF old] ..
  show "graph_inv K g2"
    unfolding graph_inv_def
  proof (intro conjI allI impI)
    show "distinct (map fst (nodes g2))"
      using assms(1) unfolding st(1) by (auto simp: graph_inv_def has_node_iff)
    show "distinct (map fst (edges g2))"
      using assms(1) unfolding ed by (simp add: graph_inv_def distinct_update)
    show "K \<subseteq> fst ` set (nodes g2)"
      using assms(1) unfolding n2 by (auto simp: graph_inv_def)
  next
    fix e a
    assume "map_of (edges g2) e = Some a"
    then show "a = extends_label"
      using einv [of e a] unfolding ed by (cases "e = (p, job_name)") (simp_all add: update_conv')
  next
    fix n a
    assume na: "map_of (nodes g2) n = Some a"
    show "map_of a ''type'' = Some (expected_tag K n)"
    proof (cases "has_node g p")
      case True
      with na st(1) ninv show ?thesis by simp
    next
      case False
      then have none: "map_of (nodes g) p = None" by (simp add: has_node_def)
      have pK: "p \<notin> K" using False assms(1) by (auto simp: graph_inv_def has_node_iff)
      have "nodes g2 = nodes g @ [(p, hidden_attrs p)]"
        using False st(1) by simp
      then have "map_of (nodes g2) = (map_of (nodes g))(p \<mapsto> hidden_attrs p)"
        by (simp only: map_of_snoc [OF none])
      with na have "((map_of (nodes g))(p \<mapsto> hidden_attrs p)) n = Some a"
        by simp
      then show ?thesis
      proof (cases "n = p")
        case True
        with \<open>((map_of (nodes g))(p \<mapsto> hidden_attrs p)) n = Some a\<close> have "a = hidden_attrs p" by simp
        moreover have "expected_tag K p = SStr ''hidden''" using pK by (cases p) auto
        ultimately show ?thesis using True by (simp add: hidden_attrs_def)
      next
        case False
        with \<open>((map_of (nodes g))(p \<mapsto> hidden_attrs p)) n = Some a\<close> ninv show ?thesis
          by simp
      qed
    qed
  qed
qed

lemma add_parents_inv:
  assumes "graph_inv K g" "job_name \<in> K" "add_parents job_name ps g = Inr g'"
  shows "graph_inv K g'
       \<and> fst ` set (nodes g') = fst ` set (nodes g) \<union> {p. YScalar p \<in> set ps}
       \<and> fst ` set (edges g') = fst ` set (edges g) \<union> {(p, job_name) | p. YScalar p \<in> set ps}"
  using assms(1,3)
proof (induction ps arbitrary: g)
  case Nil
  then show ?case by simp
next
  case (Cons parent rest)
  from Cons.prems(2) obtain p where p: "parent = YScalar p"
    by (cases parent) auto
  from Cons.prems(2) p obtain g1 g2 where
    g1: "(if \<not> has_node g p then add_node p (hidden_attrs p) g else Inr g) = Inr g1"
    and g2: "add_edge p job_name extends_label g1 = Inr g2"
    and rest: "add_parents job_name rest g2 = Inr g'"
    by (auto simp: extends_label_def split: sum.splits)
  note st = parent_step_inv [OF Cons.prems(1) assms(2) g1 g2]
  from Cons.IH [OF st(1) rest] st(2,3) p show ?case by auto
qed

lemma add_extends_edges_inv:
  assumes "graph_inv K g" "fst ` set d \<subseteq> K" "add_extends_edges d g = Inr g'"
  shows "graph_inv K g'
       \<and> fst ` set (nodes g') = fst ` set (nodes g) \<union> {p. \<exists>j cfg. (j, cfg) \<in> set d \<and> YScalar p \<in> set (extends_of cfg)}
       \<and> fst ` set (edges g') = fst ` set (edges g) \<union> {(p, j) | p j. \<exists>cfg. (j, cfg) \<in> set d \<and> YScalar p \<in> set (extends_of cfg)}"
  using assms
proof (induction d arbitrary: g)
  case Nil
  then show ?case by simp
next
  case (Cons item rest)
  obtain j cfg where item: "item = (j, cfg)" by (cases item)
  from Cons.prems(3) item obtain g1 where
    g1: "add_parents j (extends_of cfg) g = Inr g1"
    and r: "add_extends_edges rest g1 = Inr g'"
    by (auto split: sum.splits)
  have jK: "j \<in> K" and restK: "fst ` set rest \<subseteq> K"
    using Cons.prems(2) item by auto
  note a = add_parents_inv [OF Cons.prems(1) jK g1]
  from a have inv1: "graph_inv K g1" by simp
  note b = Cons.IH [OF inv1 restK r]
  show ?case
  proof (intro conjI)
    show "graph_inv K g'" using b by simp
    show "fst ` set (nodes g') = fst ` set (nodes g) \<union> {p. \<exists>j cfg. (j, cfg) \<in> set (item # rest) \<and> YScalar p \<in> set (extends_of cfg)}"
      using a b item by auto
    show "fst ` set (edges g') = fst ` set (edges g) \<union> {(p, j) | p j. \<exists>cfg. (j, cfg) \<in> set (item # rest) \<and> YScalar p \<in> set (extends_of cfg)}"
      using a b item by auto
  qed
qed

lemma add_job_node_step:
  assumes "nodes_inv g"
    and "add_node (SStr s) (if startswith_dot s then hidden_attrs (SStr s) else job_attrs (SStr s)) g = Inr g1"
  shows "nodes_inv g1" and "fst ` set (nodes g1) = insert (SStr s) (fst ` set (nodes g))"
proof -
  let ?attr = "if startswith_dot s then hidden_attrs (SStr s) else job_attrs (SStr s)"
  have ty: "\<And>old. map_of (dict_update old ?attr) ''type'' = Some (classify s)"
    by (simp add: classify_def type_hidden_attrs type_job_attrs)
  have ninv: "\<And>n a. map_of (nodes g) n = Some a \<Longrightarrow> (\<exists>s. n = SStr s \<and> map_of a ''type'' = Some (classify s))"
    and dist: "distinct (map fst (nodes g))" and ed: "edges g = []"
    using assms(1) unfolding nodes_inv_def by blast+
  show "nodes_inv g1 " "fst ` set (nodes g1) = insert (SStr s) (fst ` set (nodes g))"
  proof (atomize (full), cases "map_of (nodes g) (SStr s)")
    case None
    with assms(2) have g1: "g1 = g\<lparr>nodes := nodes g @ [(SStr s, ?attr)]\<rparr>"
      by (simp add: add_node_def)
    have notin: "SStr s \<notin> fst ` set (nodes g)" using None by (simp add: map_of_eq_None_iff)
    have m: "map_of (nodes g1) = (map_of (nodes g))(SStr s \<mapsto> ?attr)"
      unfolding g1 using map_of_snoc [OF None] by simp
    have t0: "map_of ?attr ''type'' = Some (classify s)"
      using ty [of "[]"] by (simp add: classify_def hidden_attrs_def job_attrs_def)
    have "nodes_inv g1"
      unfolding nodes_inv_def
    proof (intro conjI allI impI)
      show "distinct (map fst (nodes g1))" using dist notin g1 by simp
      show "edges g1 = []" using ed g1 by simp
      fix n a assume "map_of (nodes g1) n = Some a"
      then show "\<exists>s. n = SStr s \<and> map_of a ''type'' = Some (classify s)"
        unfolding m using ninv [of n a] t0 by (cases "n = SStr s") auto
    qed
    moreover have "fst ` set (nodes g1) = insert (SStr s) (fst ` set (nodes g))"
      using g1 by auto
    ultimately show "nodes_inv g1 \<and> fst ` set (nodes g1) = insert (SStr s) (fst ` set (nodes g))" by simp
  next
    case (Some old)
    with assms(2) have g1: "g1 = g\<lparr>nodes := AList.update (SStr s) (dict_update old ?attr) (nodes g)\<rparr>"
      by (simp add: add_node_def)
    have inn: "SStr s \<in> fst ` set (nodes g)"
      using Some by (metis map_of_eq_None_iff option.distinct(1))
    have m: "map_of (nodes g1) = (map_of (nodes g))(SStr s \<mapsto> dict_update old ?attr)"
      unfolding g1 by (simp add: update_conv')
    have "nodes_inv g1"
      unfolding nodes_inv_def
    proof (intro conjI allI impI)
      show "distinct (map fst (nodes g1))" using dist g1 by (simp add: distinct_update)
      show "edges g1 = []" using ed g1 by simp
      fix n a assume "map_of (nodes g1) n = Some a"
      then show "\<exists>s. n = SStr s \<and> map_of a ''type'' = Some (classify s)"
        unfolding m using ninv [of n a] ty [of old] by (cases "n = SStr s") auto
    qed
    moreover have "fst ` set (nodes g1) = insert (SStr s) (fst ` set (nodes g))"
      using g1 inn by (auto simp: dom_update)
    ultimately show "nodes_inv g1 \<and> fst ` set (nodes g1) = insert (SStr s) (fst ` set (nodes g))" by simp
  qed
qed

lemma add_job_nodes_inv:
  assumes "nodes_inv g" "add_job_nodes ks g = Inr g'"
  shows "nodes_inv g' \<and> fst ` set (nodes g') = fst ` set (nodes g) \<union> set ks \<and> (\<forall>k \<in> set ks. \<exists>s. k = SStr s)"
  using assms
proof (induction ks arbitrary: g)
  case Nil
  then show ?case by simp
next
  case (Cons k rest)
  from Cons.prems(2) obtain s where k: "k = SStr s" by (cases k) auto
  from Cons.prems(2) k obtain g1 where
    g1: "add_node (SStr s) (if startswith_dot s then hidden_attrs (SStr s) else job_attrs (SStr s)) g = Inr g1"
    and r: "add_job_nodes rest g1 = Inr g'"
    by (auto split: sum.splits)
  note st = add_job_node_step [OF Cons.prems(1) g1]
  from Cons.IH [OF st(1) r] st(2) k show ?case by auto
qed

lemma nodes_inv_graph_inv:
  assumes "nodes_inv g"
  shows "graph_inv (fst ` set (nodes g)) g"
  unfolding graph_inv_def
proof (intro conjI allI impI)
  show "distinct (map fst (nodes g))" "distinct (map fst (edges g))"
    using assms by (simp_all add: nodes_inv_def)
  show "fst ` set (nodes g) \<subseteq> fst ` set (nodes g)" by simp
next
  fix e a assume "map_of (edges g) e = Some a"
  with assms show "a = extends_label" by (simp add: nodes_inv_def)
next
  fix n a assume na: "map_of (nodes g) n = Some a"
  with assms obtain s where s: "n = SStr s" "map_of a ''type'' = Some (classify s)"
    unfolding nodes_inv_def by blast
  from na have "n \<in> fst ` set (nodes g)"
    by (metis map_of_eq_None_iff option.distinct(1))
  with s show "map_of a ''type'' = Some (expected_tag (fst ` set (nodes g)) n)" by simp
qed

lemma build_graph_inv:
  assumes "build_graph (YDict d) = Inr g"
  shows "graph_inv (fst ` set d) g"
    and "fst ` set (nodes g) = fst ` set d \<union> {p. \<exists>j cfg. (j, cfg) \<in> set d \<and> YScalar p \<in> set (extends_of cfg)}"
    and "fst ` set (edges g) = {(p, j) | p j. \<exists>cfg. (j, cfg) \<in> set d \<and> YScalar p \<in> set (extends_of cfg)}"
    and "\<forall>k \<in> fst ` set d. \<exists>s. k = SStr s"
proof -
  from assms obtain g1 where
    g1: "add_job_nodes (map fst d) empty_graph = Inr g1"
    and g: "add_extends_edges d g1 = Inr g"
    by (auto split: sum.splits)
  have "nodes_inv empty_graph" by (simp add: nodes_inv_def empty_graph_def)
  from add_job_nodes_inv [OF this g1]
  have n1: "nodes_inv g1" and k1: "fst ` set (nodes g1) = fst ` set d"
    and str: "\<forall>k \<in> fst ` set d. \<exists>s. k = SStr s"
    by (simp_all add: empty_graph_def)
  have e1: "edges g1 = []" using n1 by (simp add: nodes_inv_def)
  have inv1: "graph_inv (fst ` set d) g1"
    using nodes_inv_graph_inv [OF n1] k1 by simp
  note r = add_extends_edges_inv [OF inv1 subset_refl g]
  show "graph_inv (fst ` set d) g" using r by simp
  show "fst ` set (nodes g) = fst ` set d \<union> {p. \<exists>j cfg. (j, cfg) \<in> set d \<and> YScalar p \<in> set (extends_of cfg)}"
    using r k1 by simp
  show "fst ` set (edges g) = {(p, j) | p j. \<exists>cfg. (j, cfg) \<in> set d \<and> YScalar p \<in> set (extends_of cfg)}"
    using r e1 by simp
  show "\<forall>k \<in> fst ` set d. \<exists>s. k = SStr s" by (rule str)
qed

lemma count_list_distinct: "distinct xs \<Longrightarrow> x \<in> set xs \<Longrightarrow> count_list xs x = 1"
  by (induction xs) auto

lemma map_of_in_keys: "k \<in> fst ` set xs \<Longrightarrow> \<exists>v. map_of xs k = Some v"
  by (cases "map_of xs k") (simp_all add: map_of_eq_None_iff)

lemma add_job_nodes_succeeds:
  "\<forall>k \<in> set ks. \<exists>s. k = SStr s \<Longrightarrow> \<exists>g'. add_job_nodes ks g = Inr g'"
proof (induction ks arbitrary: g)
  case Nil
  then show ?case by simp
next
  case (Cons k rest)
  then obtain s where s: "k = SStr s" by auto
  have "\<exists>g1. add_node (SStr s) (if startswith_dot s then hidden_attrs (SStr s) else job_attrs (SStr s)) g = Inr g1"
    by (cases "map_of (nodes g) (SStr s)") (simp_all add: add_node_def)
  then obtain g1 where "add_node (SStr s) (if startswith_dot s then hidden_attrs (SStr s) else job_attrs (SStr s)) g = Inr g1" ..
  moreover from Cons obtain g' where "add_job_nodes rest g1 = Inr g'" by auto
  ultimately show ?case using s by auto
qed

lemma add_parents_succeeds:
  assumes "graph_inv K g" "job_name \<in> K"
    and "\<forall>x \<in> set ps. \<exists>p. x = YScalar p \<and> p \<noteq> SNone"
  shows "\<exists>g'. add_parents job_name ps g = Inr g'"
  using assms(1,3)
proof (induction ps arbitrary: g)
  case Nil
  then show ?case by simp
next
  case (Cons parent rest)
  then obtain p where p: "parent = YScalar p" "p \<noteq> SNone" by auto
  have hj: "has_node g job_name"
    using Cons.prems(1) assms(2) by (auto simp: graph_inv_def has_node_iff)
  obtain g1 where g1: "(if \<not> has_node g p then add_node p (hidden_attrs p) g else Inr g) = Inr g1"
    using p(2) by (cases "has_node g p") (simp_all add: add_node_fresh)
  then have g1': "g1 = (if has_node g p then g else g\<lparr>nodes := nodes g @ [(p, hidden_attrs p)]\<rparr>)"
    using p(2) by (cases "has_node g p") (simp_all add: add_node_fresh)
  have "has_node g1 p" "has_node g1 job_name"
    using hj g1' by (auto simp: has_node_iff)
  from add_edge_present [OF this, of extends_label] obtain g2 where
    g2: "add_edge p job_name extends_label g1 = Inr g2" by blast
  from parent_step_inv(1) [OF Cons.prems(1) assms(2) g1 g2] have "graph_inv K g2" .
  with Cons.IH [of g2] Cons.prems(2) obtain g' where "add_parents job_name rest g2 = Inr g'"
    by auto
  with p g1 g2 show ?case
    by (cases "has_node g p") (auto simp: extends_label_def)
qed

lemma add_extends_edges_succeeds:
  assumes "graph_inv K g" "fst ` set d \<subseteq> K"
    and "\<forall>(j, cfg) \<in> set d. \<forall>x \<in> set (extends_of cfg). \<exists>p. x = YScalar p \<and> p \<noteq> SNone"
  shows "\<exists>g'. add_extends_edges d g = Inr g'"
  using assms
proof (induction d arbitrary: g)
  case Nil
  then show ?case by simp
next
  case (Cons item rest)
  obtain j cfg where item: "item = (j, cfg)" by (cases item)
  have jK: "j \<in> K" using Cons.prems(2) item by auto
  have "\<forall>x \<in> set (extends_of cfg). \<exists>p. x = YScalar p \<and> p \<noteq> SNone"
    using Cons.prems(3) item by auto
  from add_parents_succeeds [OF Cons.prems(1) jK this] obtain g1 where
    g1: "add_parents j (extends_of cfg) g = Inr g1" ..
  from add_parents_inv [OF Cons.prems(1) jK g1] have inv1: "graph_inv K g1" by simp
  have "fst ` set rest \<subseteq> K" using Cons.prems(2) by auto
  moreover have "\<forall>(j, cfg) \<in> set rest. \<forall>x \<in> set (extends_of cfg). \<exists>p. x = YScalar p \<and> p \<noteq> SNone"
    using Cons.prems(3) by auto
  ultimately obtain g' where "add_extends_edges rest g1 = Inr g'"
    using Cons.IH [OF inv1] by blast
  with g1 item show ?case by simp
qed

lemma build_graph_succeeds:
  assumes "well_formed_jobs d"
  shows "\<exists>g. build_graph (YDict d) = Inr g"
proof -
  from assms have "\<forall>k \<in> set (map fst d). \<exists>s. k = SStr s"
    by (simp add: well_formed_jobs_def)
  from add_job_nodes_succeeds [OF this] obtain g1 where
    g1: "add_job_nodes (map fst d) empty_graph = Inr g1" by blast
  have "nodes_inv empty_graph" by (simp add: nodes_inv_def empty_graph_def)
  from add_job_nodes_inv [OF this g1]
  have n1: "nodes_inv g1" and k1: "fst ` set (nodes g1) = fst ` set d"
    by (simp_all add: empty_graph_def)
  have inv1: "graph_inv (fst ` set d) g1"
    using nodes_inv_graph_inv [OF n1] k1 by simp
  from assms have "\<forall>(j, cfg) \<in> set d. \<forall>x \<in> set (extends_of cfg). \<exists>p. x = YScalar p \<and> p \<noteq> SNone"
    by (simp add: well_formed_jobs_def)
  from add_extends_edges_succeeds [OF inv1 subset_refl this] g1 show ?thesis
    by simp
qed

lemma include_loop_all_ignored:
  "\<forall>e \<in> set incs. local_of e = None \<Longrightarrow> include_loop n fs base_dir incs d = Some (Inr d)"
  by (induction incs) simp_all

lemmas bg_eval = empty_graph_def add_node_def add_edge_def ensure_node_def has_node_def
      startswith_dot_def hidden_attrs_def job_attrs_def

lemma add_job_nodes_run_frame:
  "st_data (fst (add_job_nodes_run ks st)) = st_data st
   \<and> outcome (add_job_nodes_run ks st) = add_job_nodes ks (st_graph st)"
proof (induction ks arbitrary: st)
  case Nil
  show ?case by simp
next
  case (Cons k rest)
  show ?case
  proof (cases k)
    case (SStr s)
    show ?thesis
    proof (cases "add_node (SStr s) (if startswith_dot s then hidden_attrs (SStr s) else job_attrs (SStr s)) (st_graph st)")
      case (Inl e)
      with SStr show ?thesis by simp
    next
      case (Inr g')
      with SStr Cons.IH [of "st\<lparr>st_graph := g'\<rparr>"] show ?thesis by simp
    qed
  qed simp_all
qed

lemma add_parents_run_frame:
  "st_data (fst (add_parents_run j ps st)) = st_data st
   \<and> outcome (add_parents_run j ps st) = add_parents j ps (st_graph st)"
proof (induction ps arbitrary: st)
  case Nil
  show ?case by simp
next
  case (Cons parent rest)
  show ?case
  proof (cases parent)
    case (YScalar p)
    show ?thesis
    proof (cases "if \<not> has_node (st_graph st) p then add_node p (hidden_attrs p) (st_graph st) else Inr (st_graph st)")
      case (Inl e)
      with YScalar show ?thesis by simp
    next
      case (Inr g1)
      note g1 = this
      show ?thesis
      proof (cases "add_edge p j [(''label'', SStr ''extends'')] g1")
        case (Inl e)
        with YScalar g1 show ?thesis by simp
      next
        case (Inr g2)
        with YScalar g1 Cons.IH [of "st\<lparr>st_graph := g2\<rparr>"] show ?thesis by simp
      qed
    qed
  qed simp_all
qed

lemma add_extends_edges_run_frame:
  "st_data (fst (add_extends_edges_run d st)) = st_data st
   \<and> outcome (add_extends_edges_run d st) = add_extends_edges d (st_graph st)"
proof (induction d arbitrary: st)
  case Nil
  show ?case by simp
next
  case (Cons item rest)
  obtain j cfg where item: "item = (j, cfg)" by (cases item)
  obtain st' r where run: "add_parents_run j (extends_of cfg) st = (st', r)"
    by (cases "add_parents_run j (extends_of cfg) st")
  from add_parents_run_frame [of j "extends_of cfg" st] run
  have d: "st_data st' = st_data st" and o: "outcome (st', r) = add_parents j (extends_of cfg) (st_graph st)"
    by simp_all
  show ?case
  proof (cases r)
    case None
    with o have "add_parents j (extends_of cfg) (st_graph st) = Inr (st_graph st')" by simp
    with item run None d Cons.IH [of st'] show ?thesis by simp
  next
    case (Some e)
    with o have "add_parents j (extends_of cfg) (st_graph st) = Inl e" by simp
    with item run Some d show ?thesis by simp
  qed
qed

section \<open>Properties of parse_includes\<close>

text \<open>
  C8. A mapping without an \<^verbatim>\<open>include\<close> key is returned as it is, and so is every value
  that is not a mapping (a scalar, a sequence); no file is read and the result does not
  depend on the nesting bound.
\<close>

theorem parse_includes_no_include_identity:
  "(map_of d (SStr ''include'') = None \<longrightarrow> parse_includes n fs (YDict d) base_dir = Some (Inr (YDict d)))
   \<and> parse_includes n fs (YScalar s) base_dir = Some (Inr (YScalar s))
   \<and> parse_includes n fs (YList xs) base_dir = Some (Inr (YList xs))"
  by simp

theorem parse_includes_no_include_identity_witness:
  "map_of [(SStr ''build'', YDict [(SStr ''script'', YStr ''x'')])] (SStr ''include'') = None
   \<and> parse_includes 0 no_files (YDict [(SStr ''build'', YDict [(SStr ''script'', YStr ''x'')])]) ''.''
       = Some (Inr (YDict [(SStr ''build'', YDict [(SStr ''script'', YStr ''x'')])]))"
  using parse_includes_no_include_identity
    [of "[(SStr ''build'', YDict [(SStr ''script'', YStr ''x'')])]" 0 no_files "''.''"]
  by simp











text \<open>
  C9. An entry whose file parses to a value that is not a mapping (an empty document,
  a scalar, a sequence) stops the resolution with \<^verbatim>\<open>AttributeError\<close>, raised by the merge:
  that is neither the error of a missing file nor that of a file that is not YAML. It
  holds wherever the loop reaches such an entry, and so for a document whose
  \<^verbatim>\<open>include\<close> value is that entry.
\<close>

theorem non_mapping_include_fails:
  assumes "local_of e = Some (YStr p)"
    and "fs (path_join base_dir p) = Doc v"
    and "\<forall>r. v \<noteq> YDict r"
  shows "include_loop (Suc n) fs base_dir (e # rest) d = Some (Inl AttributeError)
       \<and> (\<forall>dd. map_of dd (SStr ''include'') = Some e
             \<longrightarrow> parse_includes (Suc n) fs (YDict dd) base_dir = Some (Inl AttributeError))"
proof -
  have pv: "parse_includes n fs v (dirname (path_join base_dir p)) = Some (Inr v)"
    using assms(3) by (cases v) auto
  have loop: "\<And>rest d. include_loop (Suc n) fs base_dir (e # rest) d = Some (Inl AttributeError)"
    using assms pv by (cases v) auto
  have "as_list e = [e]"
    using assms(1) by (cases e) auto
  with loop show ?thesis by simp
qed

theorem non_mapping_include_fails_witness:
  "local_of (YDict [(SStr ''local'', YStr ''empty.yml'')]) = Some (YStr ''empty.yml'')
   \<and> example_fs (path_join ''.'' ''empty.yml'') = Doc (YScalar SNone)
   \<and> (\<forall>r. YScalar SNone \<noteq> YDict r)
   \<and> parse_includes (Suc 0) example_fs
        (YDict [(SStr ''include'', YDict [(SStr ''local'', YStr ''empty.yml'')]),
                (SStr ''build'', YDict [(SStr ''script'', YStr ''x'')])]) ''.''
       = Some (Inl AttributeError)
   \<and> AttributeError \<noteq> FileNotFoundError \<and> AttributeError \<noteq> YAMLError"
proof -
  let ?e = "YDict [(SStr ''local'', YStr ''empty.yml'')]"
  have h1: "local_of ?e = Some (YStr ''empty.yml'')" by simp
  have h2: "example_fs (path_join ''.'' ''empty.yml'') = Doc (YScalar SNone)"
    by (simp add: example_fs_def path_join_def)
  have h3: "\<forall>r. YScalar SNone \<noteq> YDict r" by simp
  from non_mapping_include_fails
    [where fs = example_fs and base_dir = "''.''" and n = 0 and rest = "[]" and d = "[]", OF h1 h2 h3]
  have "parse_includes (Suc 0) example_fs
        (YDict [(SStr ''include'', ?e), (SStr ''build'', YDict [(SStr ''script'', YStr ''x'')])]) ''.''
       = Some (Inl AttributeError)"
    by simp
  with h1 h2 h3 show ?thesis by simp
qed




section \<open>Properties of build_graph\<close>

text \<open>
  C1. A node that is only named by an \<^verbatim>\<open>extends\<close> value is created with the tag
  \<^verbatim>\<open>hidden\<close> whatever its first character: \<^verbatim>\<open>base\<close> does not start with a dot and is
  tagged \<^verbatim>\<open>hidden\<close>.
\<close>

theorem classification_counterexample:
  "build_graph (YDict [(SStr ''test'', YDict [(SStr ''extends'', YStr ''base'')])])
     = Inr \<lparr>nodes = [(SStr ''test'', job_attrs (SStr ''test'')),
                      (SStr ''base'', hidden_attrs (SStr ''base''))],
            edges = [((SStr ''base'', SStr ''test''), [(''label'', SStr ''extends'')])]\<rparr>
   \<and> map_of (hidden_attrs (SStr ''base'')) ''type'' = Some (SStr ''hidden'')
   \<and> \<not> startswith_dot ''base''"
  by (simp add: empty_graph_def add_node_def add_edge_def ensure_node_def has_node_def
      startswith_dot_def hidden_attrs_def job_attrs_def)

text \<open>
  C1, as the code has it. In the graph \<open>build_graph\<close> returns, a node that is a top-level
  key of the document is tagged by its first character (\<^verbatim>\<open>hidden\<close> if and only if it
  starts with a dot, else \<^verbatim>\<open>job\<close>); a node that is not a key, so one that an
  \<^verbatim>\<open>extends\<close> value brought in, is tagged \<^verbatim>\<open>hidden\<close>.
\<close>

theorem node_classification:
  assumes "build_graph (YDict d) = Inr g" and "map_of (nodes g) n = Some a"
  shows "(n \<in> fst ` set d \<longrightarrow>
            (\<exists>s. n = SStr s
               \<and> map_of a ''type'' = Some (SStr (if startswith_dot s then ''hidden'' else ''job''))))
       \<and> (n \<notin> fst ` set d \<longrightarrow> map_of a ''type'' = Some (SStr ''hidden''))"
proof -
  from build_graph_inv(1) [OF assms(1)] assms(2)
  have tag: "map_of a ''type'' = Some (expected_tag (fst ` set d) n)"
    unfolding graph_inv_def by blast
  show ?thesis
  proof (intro conjI impI)
    assume k: "n \<in> fst ` set d"
    with build_graph_inv(4) [OF assms(1)] obtain s where s: "n = SStr s" by blast
    with tag k show "\<exists>s. n = SStr s
               \<and> map_of a ''type'' = Some (SStr (if startswith_dot s then ''hidden'' else ''job''))"
      by (simp add: classify_def)
  next
    assume "n \<notin> fst ` set d"
    with tag show "map_of a ''type'' = Some (SStr ''hidden'')"
      by (cases n) simp_all
  qed
qed

theorem node_classification_witness:
  "build_graph (YDict [(SStr ''test'', YDict [(SStr ''extends'', YStr ''.base'')])])
     = Inr \<lparr>nodes = [(SStr ''test'', job_attrs (SStr ''test'')),
                      (SStr ''.base'', hidden_attrs (SStr ''.base''))],
            edges = [((SStr ''.base'', SStr ''test''), [(''label'', SStr ''extends'')])]\<rparr>
   \<and> map_of (job_attrs (SStr ''test'')) ''type'' = Some (SStr ''job'')
   \<and> map_of (hidden_attrs (SStr ''.base'')) ''type'' = Some (SStr ''hidden'')"
proof -
  let ?d = "[(SStr ''test'', YDict [(SStr ''extends'', YStr ''.base'')])]"
  let ?g = "\<lparr>nodes = [(SStr ''test'', job_attrs (SStr ''test'')),
                      (SStr ''.base'', hidden_attrs (SStr ''.base''))],
            edges = [((SStr ''.base'', SStr ''test''), [(''label'', SStr ''extends'')])]\<rparr>"
  have h1: "build_graph (YDict ?d) = Inr ?g"
    by (simp add: bg_eval)
  have h2: "map_of (nodes ?g) (SStr ''test'') = Some (job_attrs (SStr ''test''))" by simp
  have h3: "map_of (nodes ?g) (SStr ''.base'') = Some (hidden_attrs (SStr ''.base''))" by simp
  from node_classification [OF h1 h2]
  have a: "map_of (job_attrs (SStr ''test'')) ''type'' = Some (SStr ''job'')"
    by (simp add: startswith_dot_def)
  from node_classification [OF h1 h3]
  have b: "map_of (hidden_attrs (SStr ''.base'')) ''type'' = Some (SStr ''hidden'')"
    by simp
  from h1 a b show ?thesis by simp
qed



text \<open>
  C7. For a job \<open>c\<close> with \<^verbatim>\<open>extends: [a, b]\<close> the graph is built and holds the edges
  \<open>a \<rightarrow> c\<close> and \<open>b \<rightarrow> c\<close>, each labelled \<^verbatim>\<open>extends\<close> and each present once; \<open>a\<close>
  and \<open>b\<close> may be the same parent, named twice.
\<close>

theorem extends_edges_added:
  assumes "well_formed_jobs d"
    and "(c, YDict cfg) \<in> set d"
    and "map_of cfg (SStr ''extends'') = Some (YList [YScalar a, YScalar b])"
  shows "\<exists>g. build_graph (YDict d) = Inr g
          \<and> map_of (edges g) (a, c) = Some [(''label'', SStr ''extends'')]
          \<and> map_of (edges g) (b, c) = Some [(''label'', SStr ''extends'')]
          \<and> count_list (map fst (edges g)) (a, c) = 1
          \<and> count_list (map fst (edges g)) (b, c) = 1"
proof -
  from build_graph_succeeds [OF assms(1)] obtain g where g: "build_graph (YDict d) = Inr g" ..
  note inv = build_graph_inv [OF g]
  have dist: "distinct (map fst (edges g))"
    and lab: "\<And>e x. map_of (edges g) e = Some x \<Longrightarrow> x = extends_label"
    using inv(1) unfolding graph_inv_def by blast+
  have ext: "extends_of (YDict cfg) = [YScalar a, YScalar b]"
    using assms(3) by simp
  have edge: "(p, c) \<in> fst ` set (edges g)" if "p = a \<or> p = b" for p
    unfolding inv(3) using assms(2) ext that by force
  have one: "map_of (edges g) (p, c) = Some [(''label'', SStr ''extends'')]
      \<and> count_list (map fst (edges g)) (p, c) = 1" if "p = a \<or> p = b" for p
  proof -
    from map_of_in_keys [OF edge [OF that]] obtain x where x: "map_of (edges g) (p, c) = Some x" ..
    from lab [OF x] x have "map_of (edges g) (p, c) = Some [(''label'', SStr ''extends'')]"
      by (simp add: extends_label_def)
    moreover from edge [OF that] have "(p, c) \<in> set (map fst (edges g))" by simp
    from count_list_distinct [OF dist this] have "count_list (map fst (edges g)) (p, c) = 1" .
    ultimately show ?thesis by simp
  qed
  from g one [of a] one [of b] show ?thesis by simp
qed

theorem extends_edges_added_witness:
  "well_formed_jobs [(SStr ''c'', YDict [(SStr ''extends'', YList [YStr ''a'', YStr ''b''])])]
   \<and> well_formed_jobs [(SStr ''c'', YDict [(SStr ''extends'', YList [YStr ''a'', YStr ''a''])])]
   \<and> (\<exists>g. build_graph (YDict [(SStr ''c'', YDict [(SStr ''extends'', YList [YStr ''a'', YStr ''b''])])]) = Inr g
          \<and> map_of (edges g) (SStr ''a'', SStr ''c'') = Some [(''label'', SStr ''extends'')]
          \<and> map_of (edges g) (SStr ''b'', SStr ''c'') = Some [(''label'', SStr ''extends'')])
   \<and> (\<exists>g. build_graph (YDict [(SStr ''c'', YDict [(SStr ''extends'', YList [YStr ''a'', YStr ''a''])])]) = Inr g
          \<and> count_list (map fst (edges g)) (SStr ''a'', SStr ''c'') = 1)"
proof -
  let ?cfg1 = "[(SStr ''extends'', YList [YStr ''a'', YStr ''b''])]"
  let ?cfg2 = "[(SStr ''extends'', YList [YStr ''a'', YStr ''a''])]"
  have w1: "well_formed_jobs [(SStr ''c'', YDict ?cfg1)]"
    by (simp add: well_formed_jobs_def)
  have w2: "well_formed_jobs [(SStr ''c'', YDict ?cfg2)]"
    by (simp add: well_formed_jobs_def)
  have m1: "(SStr ''c'', YDict ?cfg1) \<in> set [(SStr ''c'', YDict ?cfg1)]" by simp
  have m2: "(SStr ''c'', YDict ?cfg2) \<in> set [(SStr ''c'', YDict ?cfg2)]" by simp
  have e1: "map_of ?cfg1 (SStr ''extends'') = Some (YList [YStr ''a'', YStr ''b''])" by simp
  have e2: "map_of ?cfg2 (SStr ''extends'') = Some (YList [YStr ''a'', YStr ''a''])" by simp
  from extends_edges_added [OF w1 m1 e1] extends_edges_added [OF w2 m2 e2] w1 w2
  show ?thesis by blast
qed

text \<open>
  C4. No directive is refused for its shape. A number as \<^verbatim>\<open>include\<close> value is dropped
  with the key, a number as \<^verbatim>\<open>extends\<close> value adds no edge, and both functions return:
\<close>

theorem malformed_directive_counterexample:
  "parse_includes 0 no_files
     (YDict [(SStr ''include'', YScalar (SInt 5)),
             (SStr ''job'', YDict [(SStr ''extends'', YScalar (SInt 5))])]) ''.''
     = Some (Inr (YDict [(SStr ''job'', YDict [(SStr ''extends'', YScalar (SInt 5))])]))
   \<and> build_graph (YDict [(SStr ''job'', YDict [(SStr ''extends'', YScalar (SInt 5))])])
     = Inr \<lparr>nodes = [(SStr ''job'', job_attrs (SStr ''job''))], edges = []\<rparr>"
  by (simp add: AList.delete_eq empty_graph_def add_node_def startswith_dot_def)

text \<open>
  C4, as the code has it. An \<^verbatim>\<open>include\<close> value none of whose entries is a mapping with
  a \<^verbatim>\<open>local\<close> key is passed over: \<open>parse_includes\<close> returns the document without the
  \<^verbatim>\<open>include\<close> key. An \<^verbatim>\<open>extends\<close> value that is neither a string nor a sequence is
  passed over: the second pass goes on to the next job with the graph as it was, and
  a job all of whose definitions are so has no incoming edge in the graph built.
\<close>

theorem malformed_directive_ignored:
  "(map_of d (SStr ''include'') = Some inc \<and> (\<forall>e \<in> set (as_list inc). local_of e = None)
      \<longrightarrow> parse_includes n fs (YDict d) base_dir = Some (Inr (YDict (AList.delete (SStr ''include'') d))))
   \<and> (map_of cfg (SStr ''extends'') = Some v \<and> (\<forall>s. v \<noteq> YStr s) \<and> (\<forall>ps. v \<noteq> YList ps)
      \<longrightarrow> add_extends_edges ((job_name, YDict cfg) # rest) g = add_extends_edges rest g)
   \<and> (build_graph (YDict jobs) = Inr g' \<and> (\<forall>c. (job_name, c) \<in> set jobs \<longrightarrow> extends_of c = [])
      \<longrightarrow> (\<forall>p. (p, job_name) \<notin> fst ` set (edges g')))"
proof (intro conjI impI)
  assume "map_of d (SStr ''include'') = Some inc \<and> (\<forall>e \<in> set (as_list inc). local_of e = None)"
  then show "parse_includes n fs (YDict d) base_dir = Some (Inr (YDict (AList.delete (SStr ''include'') d)))"
    by (simp add: include_loop_all_ignored)
next
  assume h: "map_of cfg (SStr ''extends'') = Some v \<and> (\<forall>s. v \<noteq> YStr s) \<and> (\<forall>ps. v \<noteq> YList ps)"
  then have "extends_of (YDict cfg) = []"
    by (cases v) (auto split: scalar.splits)
  then show "add_extends_edges ((job_name, YDict cfg) # rest) g = add_extends_edges rest g"
    by simp
next
  assume h: "build_graph (YDict jobs) = Inr g' \<and> (\<forall>c. (job_name, c) \<in> set jobs \<longrightarrow> extends_of c = [])"
  then have g: "build_graph (YDict jobs) = Inr g'" by simp
  show "\<forall>p. (p, job_name) \<notin> fst ` set (edges g')"
    unfolding build_graph_inv(3) [OF g] using h by auto
qed

theorem malformed_directive_ignored_witness:
  "map_of [(SStr ''include'', YScalar (SInt 5)), (SStr ''job'', YDict [])] (SStr ''include'')
      = Some (YScalar (SInt 5))
   \<and> as_list (YScalar (SInt 5)) = [YScalar (SInt 5)]
   \<and> local_of (YScalar (SInt 5)) = None
   \<and> parse_includes 0 no_files
        (YDict [(SStr ''include'', YScalar (SInt 5)), (SStr ''job'', YDict [])]) ''.''
      = Some (Inr (YDict (AList.delete (SStr ''include'')
           [(SStr ''include'', YScalar (SInt 5)), (SStr ''job'', YDict [])])))
   \<and> map_of [(SStr ''extends'', YScalar (SInt 5))] (SStr ''extends'') = Some (YScalar (SInt 5))
   \<and> add_extends_edges [(SStr ''job'', YDict [(SStr ''extends'', YScalar (SInt 5))])] empty_graph
      = add_extends_edges [] empty_graph
   \<and> build_graph (YDict [(SStr ''job'', YDict [(SStr ''extends'', YScalar (SInt 5))])])
      = Inr \<lparr>nodes = [(SStr ''job'', job_attrs (SStr ''job''))], edges = []\<rparr>
   \<and> (\<forall>p. (p, SStr ''job'') \<notin> fst ` set (edges \<lparr>nodes = [(SStr ''job'', job_attrs (SStr ''job''))], edges = []\<rparr>))"
proof -
  let ?d = "[(SStr ''include'', YScalar (SInt 5)), (SStr ''job'', YDict [])]"
  let ?cfg = "[(SStr ''extends'', YScalar (SInt 5))]"
  let ?jobs = "[(SStr ''job'', YDict ?cfg)]"
  let ?g = "\<lparr>nodes = [(SStr ''job'', job_attrs (SStr ''job''))], edges = []\<rparr>"
  have a1: "map_of ?d (SStr ''include'') = Some (YScalar (SInt 5))
      \<and> (\<forall>e \<in> set (as_list (YScalar (SInt 5))). local_of e = None)"
    by simp
  have b1: "map_of ?cfg (SStr ''extends'') = Some (YScalar (SInt 5))
      \<and> (\<forall>s. YScalar (SInt 5) \<noteq> YStr s) \<and> (\<forall>ps. YScalar (SInt 5) \<noteq> YList ps)"
    by simp
  have c1: "build_graph (YDict ?jobs) = Inr ?g \<and> (\<forall>c. (SStr ''job'', c) \<in> set ?jobs \<longrightarrow> extends_of c = [])"
    by (simp add: bg_eval)
  note t = malformed_directive_ignored
    [where d = ?d and inc = "YScalar (SInt 5)" and n = 0 and fs = no_files and base_dir = "''.''"
       and cfg = ?cfg and v = "YScalar (SInt 5)" and job_name = "SStr ''job''" and rest = "[]"
       and g = empty_graph and jobs = ?jobs and g' = ?g]
  from t a1 have a2: "parse_includes 0 no_files (YDict ?d) ''.''
      = Some (Inr (YDict (AList.delete (SStr ''include'') ?d)))"
    by blast
  from t b1 have b2: "add_extends_edges [(SStr ''job'', YDict ?cfg)] empty_graph
      = add_extends_edges [] empty_graph"
    by blast
  from t c1 have c2: "\<forall>p. (p, SStr ''job'') \<notin> fst ` set (edges ?g)"
    by blast
  from a1 a2 b1 b2 c1 c2 show ?thesis by simp
qed


text \<open>
  C10. \<open>build_graph\<close> leaves its input as it was: in the state a run ends in, whether
  it returns or raises, the document is the one passed in; and what the run gives the
  caller is what \<open>build_graph\<close> computes from the document alone.
\<close>

theorem build_graph_keeps_document:
  "st_data (fst (build_graph_run data0)) = data0
   \<and> outcome (build_graph_run data0) = build_graph data0"
proof (cases data0)
  case (YDict d)
  let ?st = "\<lparr>st_data = data0, st_graph = empty_graph\<rparr>"
  obtain st1 r where run: "add_job_nodes_run (map fst d) ?st = (st1, r)"
    by (cases "add_job_nodes_run (map fst d) ?st")
  from add_job_nodes_run_frame [of "map fst d" ?st] run
  have d1: "st_data st1 = data0" and o1: "outcome (st1, r) = add_job_nodes (map fst d) empty_graph"
    by simp_all
  show ?thesis
  proof (cases r)
    case None
    with o1 have "add_job_nodes (map fst d) empty_graph = Inr (st_graph st1)" by simp
    with YDict run None d1 add_extends_edges_run_frame [of d st1] show ?thesis
      by (simp add: build_graph_run_def)
  next
    case (Some e)
    with o1 have "add_job_nodes (map fst d) empty_graph = Inl e" by simp
    with YDict run Some d1 show ?thesis
      by (simp add: build_graph_run_def)
  qed
qed (simp_all add: build_graph_run_def)


theorem build_graph_keeps_document_witness:
  "st_data (fst (build_graph_run (YDict [(SStr ''test'', YDict [(SStr ''extends'', YStr ''.base'')])])))
     = YDict [(SStr ''test'', YDict [(SStr ''extends'', YStr ''.base'')])]
   \<and> outcome (build_graph_run (YDict [(SStr ''test'', YDict [(SStr ''extends'', YStr ''.base'')])]))
     = Inr \<lparr>nodes = [(SStr ''test'', job_attrs (SStr ''test'')),
                      (SStr ''.base'', hidden_attrs (SStr ''.base''))],
            edges = [((SStr ''.base'', SStr ''test''), [(''label'', SStr ''extends'')])]\<rparr>"
proof -
  let ?d = "YDict [(SStr ''test'', YDict [(SStr ''extends'', YStr ''.base'')])]"
  have "build_graph ?d
     = Inr \<lparr>nodes = [(SStr ''test'', job_attrs (SStr ''test'')),
                      (SStr ''.base'', hidden_attrs (SStr ''.base''))],
            edges = [((SStr ''.base'', SStr ''test''), [(''label'', SStr ''extends'')])]\<rparr>"
    by (simp add: bg_eval)
  with build_graph_keeps_document [of ?d] show ?thesis by simp
qed

end
